theory Spec2Isabelle
  imports Complex_Main
begin

section \<open>Axis labels: \<open>_ViewProviderAxis.getNumber\<close>\<close>

text \<open>
  The Python of \<open>src/Mod/BIM/ArchAxis.py\<close> works on unbounded integers and on strings.
  Integers are \<^typ>\<open>int\<close> (\<open>//\<close> and \<open>%\<close> by a positive divisor are \<open>div\<close> and \<open>mod\<close>,
  both rounding to minus infinity), strings are \<^typ>\<open>string\<close>. An exception is a value
  \<open>Inl e\<close> of the result type, and a function that falls off its end returns \<open>PyNone\<close>.
\<close>

datatype error = IndexError

datatype pyval = Str string | PyNone

subsection \<open>The string operations of Python used by the source\<close>

text \<open>\<open>s[i]\<close>: a negative index counts from the end, an index out of range raises.\<close>

definition getitem :: "'a list \<Rightarrow> int \<Rightarrow> error + 'a" where
  "getitem xs i =
     (if 0 \<le> i \<and> i < int (length xs) then Inr (xs ! nat i)
      else if - int (length xs) \<le> i \<and> i < 0 then Inr (xs ! nat (int (length xs) + i))
      else Inl IndexError)"

text \<open>\<open>str(n)\<close> for an integer: the decimal digits, with a minus sign when negative.\<close>

definition digit_char :: "nat \<Rightarrow> char" where
  "digit_char d = char_of (48 + d)"

fun str_nat :: "nat \<Rightarrow> string" where
  "str_nat n = (if n < 10 then [digit_char n] else str_nat (n div 10) @ [digit_char (n mod 10)])"

declare str_nat.simps [simp del]

definition str :: "int \<Rightarrow> string" where
  "str i = (if i < 0 then CHR ''-'' # str_nat (nat (- i)) else str_nat (nat i))"

text \<open>\<open>s.zfill(width)\<close>: zeros are inserted on the left, after a leading sign.\<close>

definition zfill :: "string \<Rightarrow> nat \<Rightarrow> string" where
  "zfill s width =
     (if width \<le> length s then s
      else (case s of
              [] \<Rightarrow> replicate width CHR ''0''
            | c # rest \<Rightarrow>
                if c = CHR ''+'' \<or> c = CHR ''-''
                then c # replicate (width - length s) CHR ''0'' @ rest
                else replicate (width - length s) CHR ''0'' @ s))"

text \<open>\<open>s.upper()\<close> on ASCII: the letters a to z move down by 32.\<close>

definition upper_char :: "char \<Rightarrow> char" where
  "upper_char c =
     (let k = (of_char c :: nat) in if 97 \<le> k \<and> k \<le> 122 then char_of (k - 32) else c)"

definition upper :: "string \<Rightarrow> string" where
  "upper s = map upper_char s"

subsection \<open>The view object\<close>

text \<open>
  \<open>getNumber\<close> reads \<open>vobj.Object.CustomNumber\<close> and \<open>vobj.NumberingStyle\<close>, each behind
  a \<open>hasattr\<close> test: a field is \<open>None\<close> when the attribute is absent. \<open>StartNumber\<close> is a
  property of the view object that \<open>getNumber\<close> never reads.
\<close>

record view_object =
  CustomNumber :: "string option"
  NumberingStyle :: "string option"
  StartNumber :: "int option"

definition chars :: string where
  "chars = ''abcdefghijklmnopqrstuvwxyz''"

definition roman :: "(string \<times> int) list" where
  "roman = [(''M'', 1000), (''CM'', 900), (''D'', 500), (''CD'', 400),
            (''C'', 100), (''XC'', 90), (''L'', 50), (''XL'', 40),
            (''X'', 10), (''IX'', 9), (''V'', 5), (''IV'', 4), (''I'', 1)]"

text \<open>
  The inner loop \<open>while n >= integer: result += numeral; n -= integer\<close>, on the pair
  \<open>(n, result)\<close>. Every \<open>integer\<close> of the table is positive (\<open>roman_positive\<close> below);
  the test \<open>0 < integer\<close> is there for the recursion to be total in HOL and is true at
  every call made by \<open>getNumber\<close>.
\<close>

function roman_while :: "string \<Rightarrow> int \<Rightarrow> int \<times> string \<Rightarrow> int \<times> string" where
  "roman_while numeral' integer (n, result) =
     (if 0 < integer \<and> n \<ge> integer
      then roman_while numeral' integer (n - integer, result @ numeral')
      else (n, result))"
  by pat_completeness auto
termination
  by (relation "measure (\<lambda>(numeral', integer, n, result). nat n)") auto

declare roman_while.simps [simp del]

text \<open>The outer loop \<open>for numeral, integer in roman\<close>.\<close>

definition roman_for :: "(string \<times> int) list \<Rightarrow> int \<times> string \<Rightarrow> int \<times> string" where
  "roman_for table st = fold (\<lambda>(numeral', integer) st. roman_while numeral' integer st) table st"

text \<open>The two alphabetic branches differ only in \<open>.upper()\<close>; \<open>up\<close> is that difference.\<close>

definition alpha_branch :: "(string \<Rightarrow> string) \<Rightarrow> int \<Rightarrow> error + pyval" where
  "alpha_branch up num =
     (let result = [];
          base = num div 26
      in case (if base \<noteq> 0
               then (case getitem chars base of
                       Inl e \<Rightarrow> Inl e
                     | Inr c \<Rightarrow> Inr (result @ up [c]))
               else Inr result) of
           Inl e \<Rightarrow> Inl e
         | Inr result \<Rightarrow>
             (let remainder = num mod 26
              in case getitem chars remainder of
                   Inl e \<Rightarrow> Inl e
                 | Inr c \<Rightarrow> Inr (Str (result @ up [c]))))"

definition getNumber :: "view_object \<Rightarrow> int \<Rightarrow> error + pyval" where
  "getNumber vobj num =
     (if (case CustomNumber vobj of None \<Rightarrow> False | Some c \<Rightarrow> c \<noteq> [])
      then Inr (Str (the (CustomNumber vobj)))
      else case NumberingStyle vobj of
        Some style \<Rightarrow>
          if style = ''1,2,3'' then Inr (Str (str (num + 1)))
          else if style = ''01,02,03'' then Inr (Str (zfill (str (num + 1)) 2))
          else if style = ''001,002,003'' then Inr (Str (zfill (str (num + 1)) 3))
          else if style = ''A,B,C'' then alpha_branch upper num
          else if style = ''a,b,c'' then alpha_branch (\<lambda>s. s) num
          else if style = ''I,II,III'' then
            (let result = [];
                 n = num;
                 n = n + 1
             in Inr (Str (snd (roman_for roman (n, result)))))
          else if style = ''L0,L1,L2'' then Inr (Str (''L'' @ str num))
          else Inr PyNone
      | None \<Rightarrow> Inr (Str (str (num + 1))))"

subsection \<open>The contract \<open>label(index, style, startNumber, customOverride)\<close>\<close>

text \<open>
  The seven numbering styles are the entries of the enumeration that \<open>setProperties\<close>
  gives to \<open>NumberingStyle\<close>. \<open>label\<close> is \<open>getNumber\<close> on a view object that has all
  three attributes.
\<close>

datatype LabelStyle =
  Numeric | Numeric02 | Numeric003 | UpperAlpha | LowerAlpha | Roman | Prefixed

fun style_name :: "LabelStyle \<Rightarrow> string" where
  "style_name Numeric = ''1,2,3''"
| "style_name Numeric02 = ''01,02,03''"
| "style_name Numeric003 = ''001,002,003''"
| "style_name UpperAlpha = ''A,B,C''"
| "style_name LowerAlpha = ''a,b,c''"
| "style_name Roman = ''I,II,III''"
| "style_name Prefixed = ''L0,L1,L2''"

definition label :: "int \<Rightarrow> LabelStyle \<Rightarrow> int \<Rightarrow> string \<Rightarrow> error + pyval" where
  "label index style startNumber customOverride =
     getNumber \<lparr>CustomNumber = Some customOverride,
                NumberingStyle = Some (style_name style),
                StartNumber = Some startNumber\<rparr> index"

subsection \<open>What the specification says a label is\<close>

text \<open>
  The alphabetic label in the words of the specification: the letter of \<open>n // 26\<close>,
  left out when \<open>n // 26\<close> is 0, then the letter of \<open>n % 26\<close>, where letter \<open>k\<close> is
  the \<open>k\<close>-th after \<open>a\<close> (code point 97), or after \<open>A\<close> (code point 65).
\<close>

definition alpha_digits :: "nat \<Rightarrow> int \<Rightarrow> string" where
  "alpha_digits a n =
     (if n div 26 = 0 then [] else [char_of (a + nat (n div 26))]) @ [char_of (a + nat (n mod 26))]"

text \<open>
  The greedy Roman numeral in the words of the specification: while a symbol of the
  table fits, write the first (that is, the largest) symbol that fits and go on with
  what is left.
\<close>

function roman_greedy :: "(string \<times> int) list \<Rightarrow> int \<Rightarrow> string" where
  "roman_greedy table n =
     (case find (\<lambda>(s, v). 0 < v \<and> v \<le> n) table of
        None \<Rightarrow> []
      | Some (s, v) \<Rightarrow> s @ roman_greedy table (n - v))"
  by pat_completeness auto
termination
proof (relation "measure (\<lambda>(table, n). nat n)")
  show "wf (measure (\<lambda>(table, n). nat n))" by simp
next
  fix table :: "(string \<times> int) list" and n :: int and x2 :: "string \<times> int" and s v
  assume f: "find (\<lambda>(s, v). 0 < v \<and> v \<le> n) table = Some x2" and x: "(s, v) = x2"
  from f x have "0 < v \<and> v \<le> n"
    by (auto simp: find_Some_iff)
  then show "((table, n - v), (table, n)) \<in> measure (\<lambda>(table, n). nat n)"
    by simp
qed

declare roman_greedy.simps [simp del]

text \<open>
  The classic numeral, digit by digit: an \<open>M\<close> for every thousand, then the hundreds,
  the tens and the units, each digit written with its own three symbols as in
  \<open>I, II, III, IV, V, VI, VII, VIII, IX\<close>.
\<close>

definition roman_digit :: "string \<Rightarrow> string \<Rightarrow> string \<Rightarrow> nat \<Rightarrow> string" where
  "roman_digit one five ten d =
     [[], one, one @ one, one @ one @ one, one @ five, five, five @ one, five @ one @ one,
      five @ one @ one @ one, one @ ten] ! d"

definition roman_classic :: "nat \<Rightarrow> string" where
  "roman_classic n =
     concat (replicate (n div 1000) ''M'') @
     roman_digit ''C'' ''D'' ''M'' (n div 100 mod 10) @
     roman_digit ''X'' ''L'' ''C'' (n div 10 mod 10) @
     roman_digit ''I'' ''V'' ''X'' (n mod 10)"

section \<open>Axis geometry: \<open>_Axis.execute\<close>\<close>

text \<open>
  Python's floats are read as real numbers: \<open>math.sin\<close>, \<open>math.cos\<close> and
  \<open>math.radians\<close> are the functions of analysis and arithmetic is exact. A float is
  true in a condition when it is not zero. Rounding is not modelled: the test
  \<open>abs(math.cos(ang)) < 0.01\<close> is made here on the real cosine, and a double close to
  the threshold may fall on the other side of it. The properties below that are stated
  for every input take the direction and the effective length as the loop computes
  them and use no property of sine, cosine or division.
\<close>

datatype Vector = Vector real real real

fun vadd :: "Vector \<Rightarrow> Vector \<Rightarrow> Vector" where
  "vadd (Vector a b c) (Vector a' b' c') = Vector (a + a') (b + b') (c + c')"

fun vmul :: "Vector \<Rightarrow> real \<Rightarrow> Vector" where
  "vmul (Vector a b c) k = Vector (a * k) (b * k) (c * k)"

definition radians :: "real \<Rightarrow> real" where
  "radians d = d * (pi / 180)"

datatype Shape = NullShape | LineSegment Vector Vector | Compound "Shape list"

text \<open>
  The properties of the document object that \<open>execute\<close> reads and writes. \<open>Distances\<close>,
  \<open>Angles\<close> and \<open>Limit\<close> are read behind \<open>hasattr\<close> and are \<open>None\<close> when absent;
  \<open>Length\<close> and \<open>Limit\<close> hold the \<open>.Value\<close> of the quantity; both are declared as
  \<open>App::PropertyLength\<close>, a length of the host application, which holds no negative
  value. The placement is opaque.
\<close>

record 'p axis_object =
  Distances :: "real list option"
  Angles :: "real list option"
  Length :: real
  Limit :: "real option"
  Placement :: 'p
  Shape :: Shape

text \<open>
  The loop \<open>for i in range(len(distances))\<close> on the pair \<open>(dist, geoms)\<close>, written
  \<open>(dist', geoms)\<close> since \<open>dist\<close> is the metric of HOL. It runs only when both lists
  have the same length, so \<open>distances[i]\<close> and \<open>angles[i]\<close> are in range, and
  \<open>ln / math.cos(ang)\<close> is computed only when \<open>abs(math.cos(ang))\<close> is at least 0.01:
  nothing in the loop raises.
\<close>

fun execute_for ::
  "real list \<Rightarrow> real list \<Rightarrow> real \<Rightarrow> real option \<Rightarrow> nat list \<Rightarrow> real \<times> Shape list
     \<Rightarrow> real \<times> Shape list" where
  "execute_for distances angles Length_Value Limit_attr [] (dist', geoms) = (dist', geoms)"
| "execute_for distances angles Length_Value Limit_attr (i # rest) (dist', geoms) =
     (let dist' = dist' + distances ! i;
          ang = radians (angles ! i);
          ln = Length_Value;
          ln = (if \<bar>cos ang\<bar> < 0.01 then 100 * ln else ln / cos ang);
          unitvec = Vector (sin ang) (cos ang) 0;
          p1 = Vector dist' 0 0;
          p2 = vadd p1 (vmul unitvec ln);
          geoms =
            (if (case Limit_attr of None \<Rightarrow> False | Some Limit_Value \<Rightarrow> Limit_Value \<noteq> 0)
             then (let p3 = vmul unitvec (the Limit_attr);
                       p4 = vmul unitvec (- the Limit_attr)
                   in (geoms @ [LineSegment p1 (vadd p1 p3)]) @ [LineSegment p2 (vadd p2 p4)])
             else geoms @ [LineSegment p1 p2])
      in execute_for distances angles Length_Value Limit_attr rest (dist', geoms))"

text \<open>
  The list \<open>geoms\<close> that \<open>execute\<close> has built when it reaches \<open>if geoms:\<close>, and
  \<open>execute\<close> itself. The source reads the placement first and writes it back after the
  shape, so the placement is the same before and after.
\<close>

definition execute_geoms :: "real list \<Rightarrow> real list \<Rightarrow> real \<Rightarrow> real option \<Rightarrow> Shape list" where
  "execute_geoms distances angles Length_Value Limit_attr =
     (if distances \<noteq> [] \<and> Length_Value \<noteq> 0
      then (if angles \<noteq> [] \<and> length distances = length angles
            then snd (execute_for distances angles Length_Value Limit_attr
                        [0..<length distances] (0, []))
            else [])
      else [])"

definition execute :: "'p axis_object \<Rightarrow> 'p axis_object" where
  "execute obj =
     (let pl = Placement obj;
          distances = (case Distances obj of None \<Rightarrow> [0] | Some d \<Rightarrow> d);
          angles = (case Angles obj of None \<Rightarrow> [0] | Some a \<Rightarrow> a);
          geoms = execute_geoms distances angles (Length obj) (Limit obj)
      in if geoms \<noteq> []
         then obj\<lparr>Shape := Compound geoms, Placement := pl\<rparr>
         else obj)"

subsection \<open>The contract \<open>generate(distances, angles, length, limit)\<close>\<close>

text \<open>\<open>generate\<close> is the geometry of \<open>execute\<close> on an object that has all its properties.\<close>

definition generate :: "real list \<Rightarrow> real list \<Rightarrow> real \<Rightarrow> real \<Rightarrow> Shape list" where
  "generate distances angles len limit = execute_geoms distances angles len (Some limit)"

subsection \<open>What the specification says a segment is\<close>

text \<open>
  The quantities of axis \<open>i\<close> in the words of the specification: the running sum of the
  distances up to and including \<open>i\<close>, the direction, the effective length, the base
  point and the end point.
\<close>

definition cumulativeDistance :: "real list \<Rightarrow> nat \<Rightarrow> real" where
  "cumulativeDistance distances i = sum_list (take (Suc i) distances)"

definition axis_dir :: "real list \<Rightarrow> nat \<Rightarrow> Vector" where
  "axis_dir angles i = Vector (sin (radians (angles ! i))) (cos (radians (angles ! i))) 0"

definition axis_ln :: "real list \<Rightarrow> real \<Rightarrow> nat \<Rightarrow> real" where
  "axis_ln angles len i =
     (if \<bar>cos (radians (angles ! i))\<bar> < 0.01 then 100 * len
      else len / cos (radians (angles ! i)))"

definition axis_p1 :: "real list \<Rightarrow> nat \<Rightarrow> Vector" where
  "axis_p1 distances i = Vector (cumulativeDistance distances i) 0 0"

definition axis_p2 :: "real list \<Rightarrow> real list \<Rightarrow> real \<Rightarrow> nat \<Rightarrow> Vector" where
  "axis_p2 distances angles len i =
     vadd (axis_p1 distances i) (vmul (axis_dir angles i) (axis_ln angles len i))"

text \<open>
  The segments of axis \<open>i\<close>: two stubs of length \<open>limit\<close> at the two ends when the limit
  is there and is not zero, the full line otherwise.
\<close>

definition axis_segments ::
  "real list \<Rightarrow> real list \<Rightarrow> real \<Rightarrow> real option \<Rightarrow> nat \<Rightarrow> Shape list" where
  "axis_segments distances angles len Limit_attr i =
     (let p1 = axis_p1 distances i;
          p2 = axis_p2 distances angles len i;
          d = axis_dir angles i
      in case Limit_attr of
           None \<Rightarrow> [LineSegment p1 p2]
         | Some limit \<Rightarrow>
             if limit = 0 then [LineSegment p1 p2]
             else [LineSegment p1 (vadd p1 (vmul d limit)),
                   LineSegment p2 (vadd p2 (vmul d (- limit)))])"

text \<open>
  The degenerate state of an object, as \<open>execute\<close> tests it: no distances, a length of
  zero, no angles, or lists of different lengths.
\<close>

definition degenerate :: "'p axis_object \<Rightarrow> bool" where
  "degenerate obj =
     (let distances = (case Distances obj of None \<Rightarrow> [0] | Some d \<Rightarrow> d);
          angles = (case Angles obj of None \<Rightarrow> [0] | Some a \<Rightarrow> a)
      in distances = [] \<or> Length obj = 0 \<or> angles = [] \<or> length distances \<noteq> length angles)"

text \<open>The difference of two points.\<close>

fun vsub :: "Vector \<Rightarrow> Vector \<Rightarrow> Vector" where
  "vsub (Vector a b c) (Vector a' b' c') = Vector (a - a') (b - b') (c - c')"

section \<open>Properties of the labels\<close>

subsection \<open>The custom number\<close>

lemma getNumber_custom:
  "CustomNumber vobj = Some c \<Longrightarrow> c \<noteq> [] \<Longrightarrow> getNumber vobj num = Inr (Str c)"
  by (simp add: getNumber_def)

text \<open>
  Claim C8: for every index, every style and every start number, a non-empty custom
  override is the label, unchanged.
\<close>

theorem label_custom_override:
  "customOverride \<noteq> [] \<Longrightarrow>
     label index style startNumber customOverride = Inr (Str customOverride)"
  by (simp add: label_def getNumber_custom)

theorem label_custom_override_witness:
  "''CUSTOM'' \<noteq> [] \<and> label 41 Roman 7 ''CUSTOM'' = Inr (Str ''CUSTOM'')"
  using label_custom_override [of "''CUSTOM''" 41 Roman 7] by simp

subsection \<open>The alphabetic styles\<close>

lemma chars_nth_all: "\<forall>k \<in> set [0..<26]. chars ! k = char_of (97 + k)"
  by code_simp

lemma upper_chars_nth_all: "\<forall>k \<in> set [0..<26]. upper_char (chars ! k) = char_of (65 + k)"
  by code_simp

lemma chars_nth: "k < 26 \<Longrightarrow> chars ! k = char_of (97 + k)"
  using chars_nth_all by simp

lemma upper_chars_nth: "k < 26 \<Longrightarrow> upper_char (chars ! k) = char_of (65 + k)"
  using upper_chars_nth_all by simp

lemma length_chars: "length chars = 26"
  by (simp add: chars_def)

lemma getitem_chars:
  "0 \<le> i \<Longrightarrow> i < 26 \<Longrightarrow> getitem chars i = Inr (chars ! nat i)"
  by (simp add: getitem_def length_chars)

lemma getitem_chars_neg:
  "-26 \<le> i \<Longrightarrow> i < 0 \<Longrightarrow> getitem chars i = Inr (chars ! nat (26 + i))"
  by (simp add: getitem_def length_chars)

lemma getitem_chars_out:
  "i < -26 \<or> 26 \<le> i \<Longrightarrow> getitem chars i = Inl IndexError"
  by (auto simp add: getitem_def length_chars)

text \<open>The three ways through an alphabetic branch.\<close>

lemma alpha_branch_one:
  assumes "n div 26 = 0" and "getitem chars (n mod 26) = Inr c"
  shows "alpha_branch up n = Inr (Str (up [c]))"
  using assms unfolding alpha_branch_def Let_def by simp

lemma alpha_branch_two:
  assumes "n div 26 \<noteq> 0" and "getitem chars (n div 26) = Inr d"
    and "getitem chars (n mod 26) = Inr c"
  shows "alpha_branch up n = Inr (Str (up [d] @ up [c]))"
  using assms unfolding alpha_branch_def Let_def by simp

lemma alpha_branch_raise:
  assumes "n div 26 \<noteq> 0" and "getitem chars (n div 26) = Inl e"
  shows "alpha_branch up n = Inl e"
  using assms unfolding alpha_branch_def Let_def by simp

lemma alpha_branch_lower:
  assumes "0 \<le> n" "n < 676"
  shows "alpha_branch (\<lambda>s. s) n = Inr (Str (alpha_digits 97 n))"
proof -
  have b: "0 \<le> n div 26" "n div 26 < 26" using assms by auto
  have r: "0 \<le> n mod 26" "n mod 26 < 26" by auto
  have cb: "chars ! nat (n div 26) = char_of (97 + nat (n div 26))"
    using b by (intro chars_nth) simp
  have cr: "chars ! nat (n mod 26) = char_of (97 + nat (n mod 26))"
    using r by (intro chars_nth) simp
  show ?thesis
  proof (cases "n div 26 = 0")
    case True
    show ?thesis
      using alpha_branch_one [OF True getitem_chars [OF r]] True cr
      by (simp add: alpha_digits_def)
  next
    case False
    show ?thesis
      using alpha_branch_two [OF False getitem_chars [OF b] getitem_chars [OF r]] False cb cr
      by (simp add: alpha_digits_def)
  qed
qed

lemma alpha_branch_upper:
  assumes "0 \<le> n" "n < 676"
  shows "alpha_branch upper n = Inr (Str (alpha_digits 65 n))"
proof -
  have b: "0 \<le> n div 26" "n div 26 < 26" using assms by auto
  have r: "0 \<le> n mod 26" "n mod 26 < 26" by auto
  have cb: "upper_char (chars ! nat (n div 26)) = char_of (65 + nat (n div 26))"
    using b by (intro upper_chars_nth) simp
  have cr: "upper_char (chars ! nat (n mod 26)) = char_of (65 + nat (n mod 26))"
    using r by (intro upper_chars_nth) simp
  show ?thesis
  proof (cases "n div 26 = 0")
    case True
    show ?thesis
      using alpha_branch_one [OF True getitem_chars [OF r], of upper] True cr
      by (simp add: alpha_digits_def upper_def)
  next
    case False
    show ?thesis
      using alpha_branch_two [OF False getitem_chars [OF b] getitem_chars [OF r], of upper]
        False cb cr
      by (simp add: alpha_digits_def upper_def)
  qed
qed

lemma alpha_branch_overflow:
  assumes "n < -676 \<or> 676 \<le> n"
  shows "alpha_branch up n = Inl IndexError"
proof -
  have d: "n div 26 < -26 \<or> 26 \<le> n div 26" using assms by auto
  then have "n div 26 \<noteq> 0" by auto
  then show ?thesis using getitem_chars_out [OF d] by (rule alpha_branch_raise)
qed

lemma alpha_branch_negative:
  assumes "-676 \<le> n" "n < 0"
  shows "\<exists>c d. alpha_branch up n = Inr (Str (up [d] @ up [c]))"
proof -
  have b: "-26 \<le> n div 26" "n div 26 < 0" using assms by auto
  have r: "0 \<le> n mod 26" "n mod 26 < 26" by auto
  from b have "n div 26 \<noteq> 0" by simp
  from alpha_branch_two [OF this getitem_chars_neg [OF b] getitem_chars [OF r]]
  show ?thesis by blast
qed

text \<open>
  Claim C6, as the code has it: for every index \<open>n\<close> from 0 to 675 and an empty custom
  override, the \<open>LowerAlpha\<close> (\<open>UpperAlpha\<close>) label is the letter of \<open>n // 26\<close>, left out
  when \<open>n // 26\<close> is 0, followed by the letter of \<open>n % 26\<close>, counted from \<open>a\<close> (from
  \<open>A\<close>). The witness gives the labels of 25 and 26: \<open>z\<close> and \<open>ba\<close>.
\<close>

theorem alpha_label:
  "0 \<le> n \<Longrightarrow> n < 676 \<Longrightarrow>
     label n LowerAlpha startNumber [] = Inr (Str (alpha_digits 97 n)) \<and>
     label n UpperAlpha startNumber [] = Inr (Str (alpha_digits 65 n))"
  by (simp add: label_def getNumber_def alpha_branch_lower alpha_branch_upper)

theorem alpha_label_witness:
  "label 25 LowerAlpha 1 [] = Inr (Str ''z'') \<and> label 26 LowerAlpha 1 [] = Inr (Str ''ba'') \<and>
   label 675 UpperAlpha 1 [] = Inr (Str ''ZZ'')"
proof -
  have c: "char_of (122::nat) = CHR ''z''" "char_of (98::nat) = CHR ''b''"
    "char_of (97::nat) = CHR ''a''" "char_of (90::nat) = CHR ''Z''"
    by code_simp+
  show ?thesis
    using alpha_label [of 25 1] alpha_label [of 26 1] alpha_label [of 675 1]
    by (simp add: alpha_digits_def c)
qed

text \<open>
  Claim C6 as it is written fails twice: the label of index 25 is \<open>z\<close>, not \<open>az\<close>
  (25 // 26 is 0, so the first letter is left out), and index 676 has no label at all
  (\<open>chars[26]\<close> raises).
\<close>

theorem alpha_label_counterexample:
  "label 25 LowerAlpha 1 [] = Inr (Str ''z'') \<and> ''z'' \<noteq> ''az'' \<and>
   label 676 LowerAlpha 1 [] = Inl IndexError"
  by code_simp

subsection \<open>The Roman style\<close>

text \<open>
  The two loops of the source write the greedy numeral: the \<open>while\<close> loop of a symbol
  takes it as long as it fits, which is what the greedy choice does while that symbol is
  the first that fits, and a symbol that no longer fits never fits again.
\<close>

lemma find_Some_set: "find P xs = Some x \<Longrightarrow> x \<in> set xs \<and> P x"
  by (induction xs) (auto split: if_splits)

lemma roman_greedy_skip:
  "n < v \<or> v \<le> 0 \<Longrightarrow> roman_greedy ((s, v) # table) n = roman_greedy table n"
proof (induction table n rule: roman_greedy.induct)
  case (1 table n)
  let ?P = "\<lambda>(s, v). 0 < v \<and> v \<le> n"
  from "1.prems" have f: "find ?P ((s, v) # table) = find ?P table"
    by auto
  show ?case
  proof (cases "find ?P table")
    case None
    with f show ?thesis
      by (simp add: roman_greedy.simps [of "(s, v) # table" n] roman_greedy.simps [of table n])
  next
    case (Some x)
    obtain s' v' where x: "x = (s', v')" by (cases x)
    from Some x have pos: "0 < v'" "v' \<le> n"
      by (auto simp: find_Some_iff)
    with "1.prems" have "n - v' < v \<or> v \<le> 0" by auto
    from "1.IH" [OF Some x [symmetric] this]
    show ?thesis
      using Some x f
      by (simp add: roman_greedy.simps [of "(s, v) # table" n] roman_greedy.simps [of table n])
  qed
qed

lemma roman_greedy_take:
  "0 < v \<Longrightarrow> v \<le> n \<Longrightarrow>
     roman_greedy ((s, v) # table) n = s @ roman_greedy ((s, v) # table) (n - v)"
  by (simp add: roman_greedy.simps [of "(s, v) # table" n])

lemma roman_greedy_Nil: "roman_greedy [] n = []"
  by (simp add: roman_greedy.simps)

lemma roman_for_Nil: "roman_for [] st = st"
  by (simp add: roman_for_def)

lemma roman_for_Cons: "roman_for ((s, v) # table) st = roman_for table (roman_while s v st)"
  by (simp add: roman_for_def)

lemma roman_while_then_rest:
  assumes rest: "\<And>n result. snd (roman_for table (n, result)) = result @ roman_greedy table n"
  shows "snd (roman_for table (roman_while s v (n, result))) =
           result @ roman_greedy ((s, v) # table) n"
proof (induction s v "(n, result)" arbitrary: n result rule: roman_while.induct)
  case (1 s v n result)
  show ?case
  proof (cases "0 < v \<and> v \<le> n")
    case True
    then have "roman_while s v (n, result) = roman_while s v (n - v, result @ s)"
      by (simp add: roman_while.simps [of s v n result])
    then show ?thesis
      using "1.hyps" [OF True] True by (simp add: roman_greedy_take)
  next
    case False
    then have "roman_while s v (n, result) = (n, result)"
      using roman_while.simps [of s v n result] by auto
    moreover from False have "roman_greedy ((s, v) # table) n = roman_greedy table n"
      by (intro roman_greedy_skip) auto
    ultimately show ?thesis by (simp add: rest)
  qed
qed

lemma roman_for_greedy:
  "snd (roman_for table (n, result)) = result @ roman_greedy table n"
proof (induction table arbitrary: n result)
  case Nil
  show ?case by (simp add: roman_for_Nil roman_greedy_Nil)
next
  case (Cons e table)
  obtain s v where e: "e = (s, v)" by (cases e)
  show ?case
    unfolding e roman_for_Cons
    by (rule roman_while_then_rest) (rule Cons.IH)
qed

text \<open>
  The greedy numeral is the classic one. A symbol of value \<open>v\<close> is written \<open>n div v\<close>
  times and leaves \<open>n mod v\<close>; the four symbols of a decimal digit write that digit.
\<close>

lemma roman_greedy_repeat:
  assumes "0 < v" "0 \<le> n"
  shows "roman_greedy ((s, v) # table) n =
           concat (replicate (nat (n div v)) s) @ roman_greedy table (n mod v)"
  using assms(2)
proof (induction "nat n" arbitrary: n rule: less_induct)
  case less
  show ?case
  proof (cases "n < v")
    case True
    with less.prems have dm: "n div v = 0" "n mod v = n" by simp_all
    have "roman_greedy ((s, v) # table) n = roman_greedy table n"
      using True by (intro roman_greedy_skip) simp
    then show ?thesis unfolding dm by simp
  next
    case False
    with assms(1) have le: "v \<le> n" and m: "nat (n - v) < nat n" "0 \<le> n - v" by simp_all
    have d: "n div v = (n - v) div v + 1"
      using assms(1) le by (rule div_pos_geq)
    have r: "n mod v = (n - v) mod v"
      using assms(1) le by (rule mod_pos_geq)
    have "0 \<le> (n - v) div v" using m(2) assms(1) by (simp add: pos_imp_zdiv_nonneg_iff)
    then have k: "nat (n div v) = Suc (nat ((n - v) div v))" unfolding d by simp
    have "roman_greedy ((s, v) # table) n = s @ roman_greedy ((s, v) # table) (n - v)"
      using assms(1) le by (rule roman_greedy_take)
    also have "roman_greedy ((s, v) # table) (n - v) =
        concat (replicate (nat ((n - v) div v)) s) @ roman_greedy table ((n - v) mod v)"
      using m by (rule less.hyps)
    finally show ?thesis unfolding k r by simp
  qed
qed


lemma roman_greedy_count:
  assumes v: "0 < v" and lo: "int k * v \<le> n" and hi: "n < (int k + 1) * v"
  shows "roman_greedy ((s, v) # table) n =
           concat (replicate k s) @ roman_greedy table (n - int k * v)"
proof -
  have e: "n = v * int k + (n - int k * v)" by simp
  have r: "0 \<le> n - int k * v" "n - int k * v < v"
    using lo hi by (simp_all add: algebra_simps)
  have d: "n div v = int k" using e r by (rule int_div_pos_eq)
  have m: "n mod v = n - int k * v" using e r by (rule int_mod_pos_eq)
  from v have "0 \<le> int k * v" by simp
  with lo have "0 \<le> n" by linarith
  from roman_greedy_repeat [OF v this, of s table] show ?thesis
    unfolding d m by simp
qed

lemma roman_greedy_four:
  assumes u: "0 < u"
    and a: "int kn * (9 * u) \<le> r" "r < (int kn + 1) * (9 * u)"
    and b: "int kf * (5 * u) \<le> r - int kn * (9 * u)"
           "r - int kn * (9 * u) < (int kf + 1) * (5 * u)"
    and c: "int kq * (4 * u) \<le> r - int kn * (9 * u) - int kf * (5 * u)"
           "r - int kn * (9 * u) - int kf * (5 * u) < (int kq + 1) * (4 * u)"
    and d: "int ko * u \<le> r - int kn * (9 * u) - int kf * (5 * u) - int kq * (4 * u)"
           "r - int kn * (9 * u) - int kf * (5 * u) - int kq * (4 * u) < (int ko + 1) * u"
  shows "roman_greedy ((nine, 9 * u) # (five, 5 * u) # (four, 4 * u) # (one, u) # table) r =
           concat (replicate kn nine) @ concat (replicate kf five) @
           concat (replicate kq four) @ concat (replicate ko one) @
           roman_greedy table
             (r - int kn * (9 * u) - int kf * (5 * u) - int kq * (4 * u) - int ko * u)"
proof -
  from u have p: "0 < 9 * u" "0 < 5 * u" "0 < 4 * u" by simp_all
  show ?thesis
    unfolding roman_greedy_count [OF p(1) a] roman_greedy_count [OF p(2) b]
      roman_greedy_count [OF p(3) c] roman_greedy_count [OF u d]
    by simp
qed


lemma roman_greedy_block:
  assumes u: "0 < u" and d: "d < 10" and lo: "int d * u \<le> r" and hi: "r < (int d + 1) * u"
  shows "roman_greedy ((one @ ten, 9 * u) # (five, 5 * u) # (one @ five, 4 * u) # (one, u) # table) r =
           roman_digit one five ten d @ roman_greedy table (r - int d * u)"
proof -
  have "?thesis" if "d = 0"
    using roman_greedy_four [OF u, where kn = 0 and kf = 0 and kq = 0 and ko = 0 and r = r
        and nine = "one @ ten" and five = five and four = "one @ five" and one = one
        and table = table] lo hi
    unfolding that by (simp add: roman_digit_def numeral_eq_Suc)
  moreover
  have "?thesis" if "d = 1"
    using roman_greedy_four [OF u, where kn = 0 and kf = 0 and kq = 0 and ko = 1 and r = r
        and nine = "one @ ten" and five = five and four = "one @ five" and one = one
        and table = table] lo hi
    unfolding that by (simp add: roman_digit_def numeral_eq_Suc)
  moreover
  have "?thesis" if "d = 2"
    using roman_greedy_four [OF u, where kn = 0 and kf = 0 and kq = 0 and ko = 2 and r = r
        and nine = "one @ ten" and five = five and four = "one @ five" and one = one
        and table = table] lo hi
    unfolding that by (simp add: roman_digit_def numeral_eq_Suc)
  moreover
  have "?thesis" if "d = 3"
    using roman_greedy_four [OF u, where kn = 0 and kf = 0 and kq = 0 and ko = 3 and r = r
        and nine = "one @ ten" and five = five and four = "one @ five" and one = one
        and table = table] lo hi
    unfolding that by (simp add: roman_digit_def numeral_eq_Suc)
  moreover
  have "?thesis" if "d = 4"
    using roman_greedy_four [OF u, where kn = 0 and kf = 0 and kq = 1 and ko = 0 and r = r
        and nine = "one @ ten" and five = five and four = "one @ five" and one = one
        and table = table] lo hi
    unfolding that by (simp add: roman_digit_def numeral_eq_Suc)
  moreover
  have "?thesis" if "d = 5"
    using roman_greedy_four [OF u, where kn = 0 and kf = 1 and kq = 0 and ko = 0 and r = r
        and nine = "one @ ten" and five = five and four = "one @ five" and one = one
        and table = table] lo hi
    unfolding that by (simp add: roman_digit_def numeral_eq_Suc)
  moreover
  have "?thesis" if "d = 6"
    using roman_greedy_four [OF u, where kn = 0 and kf = 1 and kq = 0 and ko = 1 and r = r
        and nine = "one @ ten" and five = five and four = "one @ five" and one = one
        and table = table] lo hi
    unfolding that by (simp add: roman_digit_def numeral_eq_Suc)
  moreover
  have "?thesis" if "d = 7"
    using roman_greedy_four [OF u, where kn = 0 and kf = 1 and kq = 0 and ko = 2 and r = r
        and nine = "one @ ten" and five = five and four = "one @ five" and one = one
        and table = table] lo hi
    unfolding that by (simp add: roman_digit_def numeral_eq_Suc)
  moreover
  have "?thesis" if "d = 8"
    using roman_greedy_four [OF u, where kn = 0 and kf = 1 and kq = 0 and ko = 3 and r = r
        and nine = "one @ ten" and five = five and four = "one @ five" and one = one
        and table = table] lo hi
    unfolding that by (simp add: roman_digit_def numeral_eq_Suc)
  moreover
  have "?thesis" if "d = 9"
    using roman_greedy_four [OF u, where kn = 1 and kf = 0 and kq = 0 and ko = 0 and r = r
        and nine = "one @ ten" and five = five and four = "one @ five" and one = one
        and table = table] lo hi
    unfolding that by (simp add: roman_digit_def numeral_eq_Suc)
  moreover
  from d have "d = 0 \<or> d = 1 \<or> d = 2 \<or> d = 3 \<or> d = 4 \<or> d = 5 \<or> d = 6 \<or> d = 7 \<or> d = 8 \<or> d = 9"
    by arith
  ultimately show ?thesis by blast
qed


lemma roman_blocks:
  "roman = (''M'', 1000) #
     (''C'' @ ''M'', 9 * 100) # (''D'', 5 * 100) # (''C'' @ ''D'', 4 * 100) # (''C'', 100) #
     (''X'' @ ''C'', 9 * 10) # (''L'', 5 * 10) # (''X'' @ ''L'', 4 * 10) # (''X'', 10) #
     (''I'' @ ''X'', 9 * 1) # (''V'', 5 * 1) # (''I'' @ ''V'', 4 * 1) # (''I'', 1) # []"
  by (simp add: roman_def)

lemma roman_greedy_classic: "roman_greedy roman (int m) = roman_classic m"
proof -
  define a h t u where "a = m div 1000" and "h = m div 100 mod 10" and "t = m div 10 mod 10"
    and "u = m mod 10"
  define r3 r2 where "r3 = m mod 1000" and "r2 = m mod 100"
  have e4: "m = 1000 * a + r3" and b3: "r3 < 1000"
    by (simp_all add: a_def r3_def)
  have e3: "r3 = 100 * h + r2" and b2: "r2 < 100"
    using mod_mult2_eq [of m 100 10] by (simp_all add: r3_def h_def r2_def)
  have e2: "r2 = 10 * t + u" and b1: "u < 10"
    using mod_mult2_eq [of m 10 10] by (simp_all add: r2_def t_def u_def)
  have d: "h < 10" "t < 10" by (simp_all add: h_def t_def)
  let ?T1 = "[] :: (string \<times> int) list"
  let ?T10 = "(''I'' @ ''X'', 9 * 1) # (''V'', 5 * 1) # (''I'' @ ''V'', 4 * 1) # (''I'', 1) # ?T1"
  let ?T100 = "(''X'' @ ''C'', 9 * 10) # (''L'', 5 * 10) # (''X'' @ ''L'', 4 * 10) # (''X'', 10) # ?T10"
  let ?T1000 = "(''C'' @ ''M'', 9 * 100) # (''D'', 5 * 100) # (''C'' @ ''D'', 4 * 100) # (''C'', 100) # ?T100"
  have c4: "int a * 1000 \<le> int m" "int m < (int a + 1) * 1000" "int m - int a * 1000 = int r3"
    using e4 b3 by auto
  have c3: "int h * 100 \<le> int r3" "int r3 < (int h + 1) * 100" "int r3 - int h * 100 = int r2"
    using e3 b2 by auto
  have c2: "int t * 10 \<le> int r2" "int r2 < (int t + 1) * 10" "int r2 - int t * 10 = int u"
    using e2 b1 by auto
  have c1: "int u * 1 \<le> int u" "int u < (int u + 1) * 1" "int u - int u * 1 = 0"
    by simp_all
  have s0: "roman_greedy ((''M'', 1000) # ?T1000) (int m) =
      concat (replicate a ''M'') @ roman_greedy ?T1000 (int r3)"
    using roman_greedy_count [of 1000 a "int m" "''M''" ?T1000, OF _ c4(1,2)]
    unfolding c4(3) by simp
  have s1: "roman_greedy ?T1000 (int r3) =
      roman_digit ''C'' ''D'' ''M'' h @ roman_greedy ?T100 (int r2)"
    using roman_greedy_block [of 100 h "int r3" "''C''" "''M''" "''D''" ?T100, OF _ d(1) c3(1,2)]
    unfolding c3(3) by simp
  have s2: "roman_greedy ?T100 (int r2) =
      roman_digit ''X'' ''L'' ''C'' t @ roman_greedy ?T10 (int u)"
    using roman_greedy_block [of 10 t "int r2" "''X''" "''C''" "''L''" ?T10, OF _ d(2) c2(1,2)]
    unfolding c2(3) by simp
  have s3: "roman_greedy ?T10 (int u) =
      roman_digit ''I'' ''V'' ''X'' u @ roman_greedy ?T1 0"
    using roman_greedy_block [of 1 u "int u" "''I''" "''X''" "''V''" ?T1, OF _ b1 c1(1,2)]
    unfolding c1(3) by simp
  have "roman_greedy roman (int m) = roman_greedy ((''M'', 1000) # ?T1000) (int m)"
    by (simp only: roman_blocks)
  also have "\<dots> = concat (replicate a ''M'') @ roman_digit ''C'' ''D'' ''M'' h @
      roman_digit ''X'' ''L'' ''C'' t @ roman_digit ''I'' ''V'' ''X'' u"
    by (simp only: s0 s1 s2 s3 roman_greedy_Nil append_Nil2)
  also have "\<dots> = roman_classic m"
    by (simp only: roman_classic_def a_def h_def t_def u_def)
  finally show ?thesis .
qed

text \<open>
  Claim C7: for every index \<open>n\<close> and an empty custom override, the \<open>Roman\<close> label is
  the greedy numeral of \<open>n + 1\<close> over the table of thirteen symbols of the source, and
  from index 0 on that is the classic subtractive numeral of \<open>n + 1\<close>. The witness gives
  the labels of 3 and 0: \<open>IV\<close> and \<open>I\<close>.
\<close>

theorem roman_label:
  "label n Roman startNumber [] = Inr (Str (roman_greedy roman (n + 1))) \<and>
   (0 \<le> n \<longrightarrow> label n Roman startNumber [] = Inr (Str (roman_classic (nat (n + 1)))))"
proof -
  have g: "label n Roman startNumber [] = Inr (Str (roman_greedy roman (n + 1)))"
    by (simp add: label_def getNumber_def roman_for_greedy)
  have "roman_greedy roman (n + 1) = roman_classic (nat (n + 1))" if "0 \<le> n"
    using that roman_greedy_classic [of "nat (n + 1)"] by simp
  with g show ?thesis by simp
qed

theorem roman_label_witness:
  "label 3 Roman 1 [] = Inr (Str ''IV'') \<and> label 0 Roman 1 [] = Inr (Str ''I'') \<and>
   label 1993 Roman 1 [] = Inr (Str ''MCMXCIV'')"
proof -
  have g: "roman_greedy roman 4 = ''IV''" "roman_greedy roman 1 = ''I''"
    "roman_greedy roman 1994 = ''MCMXCIV''"
    by code_simp+
  show ?thesis
    using roman_label [of 3 1] roman_label [of 0 1] roman_label [of 1993 1]
    by (simp add: g)
qed

lemma roman_positive: "\<forall>(s, v) \<in> set roman. 0 < v \<and> s \<noteq> []"
  by (simp add: roman_def)

lemma roman_greedy_nonempty:
  assumes "1 \<le> n" shows "roman_greedy roman n \<noteq> []"
proof -
  let ?P = "\<lambda>(s, v). 0 < v \<and> v \<le> n"
  have "(''I'', 1) \<in> set roman" by (simp add: roman_def)
  with assms have "\<exists>x \<in> set roman. ?P x" by force
  then obtain x where f: "find ?P roman = Some x"
    by (cases "find ?P roman") (auto simp: find_None_iff)
  obtain s v where x: "x = (s, v)" by (cases x)
  from f x have "(s, v) \<in> set roman"
    by (auto dest: find_Some_set)
  with roman_positive have "s \<noteq> []" by auto
  with f x show ?thesis
    by (simp add: roman_greedy.simps [of roman n])
qed

lemma roman_greedy_empty:
  assumes "n \<le> 0" shows "roman_greedy table n = []"
proof -
  have "find (\<lambda>(s, v). 0 < v \<and> v \<le> n) table = None"
    using assms by (auto simp: find_None_iff)
  then show ?thesis by (simp add: roman_greedy.simps [of table n])
qed


subsection \<open>Where a label is defined\<close>

lemma str_nat_nonempty: "str_nat n \<noteq> []"
  by (subst str_nat.simps) simp

lemma str_nonempty: "str i \<noteq> []"
  by (simp add: str_def str_nat_nonempty)

lemma zfill_nonempty: "s \<noteq> [] \<Longrightarrow> zfill s width \<noteq> []"
  by (cases s) (simp_all add: zfill_def)

lemma label_numeric_nonempty:
  "style = Numeric \<or> style = Numeric02 \<or> style = Numeric003 \<or> style = Prefixed \<Longrightarrow>
     \<exists>s. label n style startNumber [] = Inr (Str s) \<and> s \<noteq> []"
  by (auto simp: label_def getNumber_def str_nonempty zfill_nonempty)

lemma label_alpha_eq:
  "label n UpperAlpha startNumber [] = alpha_branch upper n"
  "label n LowerAlpha startNumber [] = alpha_branch (\<lambda>s. s) n"
  by (simp_all add: label_def getNumber_def)

lemma upper_nonempty: "upper [c] \<noteq> []"
  by (simp add: upper_def)

lemma alpha_branch_in_range:
  assumes "-676 \<le> n" "n < 676" and up: "\<And>c. up [c] \<noteq> []"
  shows "\<exists>s. alpha_branch up n = Inr (Str s) \<and> s \<noteq> []"
proof (cases "n < 0")
  case True
  from alpha_branch_negative [OF assms(1) True, of up] up show ?thesis by auto
next
  case False
  then have n: "0 \<le> n" by simp
  have r: "0 \<le> n mod 26" "n mod 26 < 26" by auto
  have b: "0 \<le> n div 26" "n div 26 < 26" using n assms(2) by auto
  show ?thesis
  proof (cases "n div 26 = 0")
    case True
    from alpha_branch_one [OF True getitem_chars [OF r], of up] up show ?thesis by auto
  next
    case False
    from alpha_branch_two [OF False getitem_chars [OF b] getitem_chars [OF r], of up] up
    show ?thesis by auto
  qed
qed

lemma label_alpha_defined:
  assumes "style = UpperAlpha \<or> style = LowerAlpha"
  shows "(\<exists>s. label n style startNumber [] = Inr (Str s) \<and> s \<noteq> []) \<longleftrightarrow> -676 \<le> n \<and> n < 676"
proof (cases "-676 \<le> n \<and> n < 676")
  case True
  then show ?thesis
    using assms alpha_branch_in_range [of n upper] alpha_branch_in_range [of n "\<lambda>s. s"]
    by (auto simp: label_alpha_eq upper_nonempty)
next
  case False
  then have "n < -676 \<or> 676 \<le> n" by auto
  from alpha_branch_overflow [OF this] False assms show ?thesis
    by (auto simp: label_alpha_eq)
qed

lemma label_roman_defined:
  "(\<exists>s. label n Roman startNumber [] = Inr (Str s) \<and> s \<noteq> []) \<longleftrightarrow> 0 \<le> n"
proof (cases "0 \<le> n")
  case True
  then have "roman_greedy roman (n + 1) \<noteq> []" by (intro roman_greedy_nonempty) simp
  with True show ?thesis by (simp add: label_def getNumber_def roman_for_greedy)
next
  case False
  then have "roman_greedy roman (n + 1) = []" by (intro roman_greedy_empty) simp
  with False show ?thesis by (simp add: label_def getNumber_def roman_for_greedy)
qed

text \<open>
  Claim C9, as the code has it: with an empty custom override, \<open>label\<close> returns a
  non-empty string, raising nothing, exactly on these pairs: every index for the three
  numeric styles and the prefixed style, the indices from -676 to 675 for the two
  alphabetic styles, the indices from 0 on for the Roman style. So every index from 0 on
  has a non-empty label, but for the alphabetic indices from 676 on, where \<open>chars[base]\<close>
  raises \<open>IndexError\<close>: no label comes back there, duplicate or not.
\<close>

theorem label_defined:
  "((\<exists>s. label n style startNumber [] = Inr (Str s) \<and> s \<noteq> []) \<longleftrightarrow>
      ((style = UpperAlpha \<or> style = LowerAlpha) \<longrightarrow> -676 \<le> n \<and> n < 676) \<and>
      (style = Roman \<longrightarrow> 0 \<le> n)) \<and>
   ((style = UpperAlpha \<or> style = LowerAlpha) \<and> 676 \<le> n \<longrightarrow>
      label n style startNumber [] = Inl IndexError)"
proof (cases style)
  case Roman
  then show ?thesis using label_roman_defined [of n startNumber] by simp
next
  case UpperAlpha
  then show ?thesis
    using label_alpha_defined [of style n startNumber] alpha_branch_overflow [of n upper]
    by (auto simp: label_alpha_eq)
next
  case LowerAlpha
  then show ?thesis
    using label_alpha_defined [of style n startNumber] alpha_branch_overflow [of n "\<lambda>s. s"]
    by (auto simp: label_alpha_eq)
qed (use label_numeric_nonempty [of style n startNumber] in auto)

theorem label_defined_witness:
  "(\<exists>s. label 675 LowerAlpha 1 [] = Inr (Str s) \<and> s \<noteq> []) \<and>
   (\<exists>s. label 3998 Roman 1 [] = Inr (Str s) \<and> s \<noteq> []) \<and>
   (\<exists>s. label 1000000 Numeric003 1 [] = Inr (Str s) \<and> s \<noteq> []) \<and>
   \<not> (\<exists>s. label (-1) Roman 1 [] = Inr (Str s) \<and> s \<noteq> []) \<and>
   label 676 UpperAlpha 1 [] = Inl IndexError"
  using label_defined [of 675 LowerAlpha 1] label_defined [of 3998 Roman 1]
    label_defined [of 1000000 Numeric003 1] label_defined [of "-1" Roman 1]
    label_defined [of 676 UpperAlpha 1]
  by simp

text \<open>
  Claim C9 as it is written fails: at the alphabetic indices 676 and 700 an exception is
  raised, and the Roman label of index -1 (the numeral of 0) is the empty string.
\<close>

theorem label_defined_counterexample:
  "label 676 LowerAlpha 1 [] = Inl IndexError \<and> label 700 UpperAlpha 1 [] = Inl IndexError \<and>
   label (-1) Roman 1 [] = Inr (Str [])"
  by code_simp

section \<open>Properties of the geometry\<close>

subsection \<open>The loop in closed form\<close>

text \<open>
  One turn of the loop for index \<open>i\<close>, entered with the sum of the first \<open>i\<close> distances,
  leaves the sum of the first \<open>i + 1\<close> and appends the segments of axis \<open>i\<close>.
\<close>

lemma execute_for_step:
  assumes "i < length distances"
  shows "execute_for distances angles len Limit_attr (i # rest) (sum_list (take i distances), geoms) =
         execute_for distances angles len Limit_attr rest
           (sum_list (take (Suc i) distances), geoms @ axis_segments distances angles len Limit_attr i)"
  using assms
  by (simp add: Let_def axis_segments_def axis_p1_def axis_p2_def axis_dir_def axis_ln_def
      cumulativeDistance_def take_Suc_conv_app_nth split: option.split)

lemma execute_for_upt:
  assumes "n \<le> length distances" "k \<le> n"
  shows "execute_for distances angles len Limit_attr [k..<n] (sum_list (take k distances), geoms) =
         (sum_list (take n distances),
          geoms @ concat (map (axis_segments distances angles len Limit_attr) [k..<n]))"
  using assms(2)
proof (induction "n - k" arbitrary: k geoms)
  case 0
  then show ?case by simp
next
  case (Suc m)
  then have k: "k < n" "m = n - Suc k" "Suc k \<le> n" by auto
  with assms(1) have kl: "k < length distances" by simp
  have "[k..<n] = k # [Suc k..<n]" using k by (simp add: upt_conv_Cons)
  then show ?case
    using execute_for_step [OF kl] Suc.hyps(1) [OF k(2) k(3)] by simp
qed

lemma execute_geoms_closed:
  assumes "distances \<noteq> []" "len \<noteq> 0" "length distances = length angles"
  shows "execute_geoms distances angles len Limit_attr =
         concat (map (axis_segments distances angles len Limit_attr) [0..<length distances])"
proof -
  from assms have "angles \<noteq> []" by auto
  with assms show ?thesis
    using execute_for_upt [of "length distances" distances 0 angles len Limit_attr "[]"]
    by (simp add: execute_geoms_def)
qed

lemma execute_geoms_degenerate:
  "distances = [] \<or> len = 0 \<or> angles = [] \<or> length distances \<noteq> length angles \<Longrightarrow>
     execute_geoms distances angles len Limit_attr = []"
  by (auto simp: execute_geoms_def)

lemma length_concat_pairs: "length (concat (map (\<lambda>i. [f i, g i]) xs)) = 2 * length xs"
  by (induction xs) simp_all

lemma nth_concat_pairs:
  assumes "i < n"
  shows "concat (map (\<lambda>j. [f j, g j]) [0..<n]) ! (2 * i) = f i \<and>
         concat (map (\<lambda>j. [f j, g j]) [0..<n]) ! (2 * i + 1) = g i"
  using assms
proof (induction n)
  case 0
  then show ?case by simp
next
  case (Suc n)
  let ?c = "concat (map (\<lambda>j. [f j, g j]) [0..<n])"
  have len: "length ?c = 2 * n" by (simp add: length_concat_pairs)
  show ?case
  proof (cases "i < n")
    case True
    with Suc.IH len show ?thesis by (simp add: nth_append)
  next
    case False
    with Suc.prems have "i = n" by simp
    with len show ?thesis by (simp add: nth_append)
  qed
qed


lemma generate_closed:
  assumes "distances \<noteq> []" "length angles = length distances" "0 < len"
  shows "generate distances angles len limit =
         concat (map (axis_segments distances angles len (Some limit)) [0..<length distances])"
  using assms by (simp add: generate_def execute_geoms_closed)

text \<open>
  Claim C1: for every valid input (distances not empty, as many angles, a positive
  length) \<open>generate\<close> returns, for the indices \<open>i\<close> in order, the segments of axis \<open>i\<close>,
  built on the running sum \<open>cumulativeDistance\<close> of \<open>distances[0..i]\<close>, the direction
  \<open>(sin a, cos a, 0)\<close>, the base point \<open>p1 = (cumulativeDistance, 0, 0)\<close> and the end
  point \<open>p2 = p1 + dir * ln\<close>. The witness evaluates \<open>generate([0], [0], 1000, 0)\<close>:
  one segment from \<open>(0, 0, 0)\<close> to \<open>(0, 1000, 0)\<close>.
\<close>

theorem generate_segments:
  assumes "distances \<noteq> []" "length angles = length distances" "0 < len"
  shows "generate distances angles len limit =
         concat (map (axis_segments distances angles len (Some limit)) [0..<length distances])"
  using assms by (rule generate_closed)

theorem generate_segments_witness:
  "generate [0] [0] 1000 0 = [LineSegment (Vector 0 0 0) (Vector 0 1000 0)] \<and>
   generate [100, 250] [0, 180] 1000 0 =
     [LineSegment (Vector 100 0 0) (Vector 100 1000 0),
      LineSegment (Vector 350 0 0) (Vector 350 1000 0)]"
  using generate_segments [of "[0]" "[0]" 1000 0]
    generate_segments [of "[100, 250]" "[0, 180]" 1000 0]
  by (simp add: axis_segments_def axis_p1_def axis_p2_def axis_dir_def axis_ln_def
      cumulativeDistance_def radians_def upt_rec)

subsection \<open>Full lines and stubs\<close>

lemma axis_segments_full:
  "axis_segments distances angles len (Some 0) =
     (\<lambda>i. [LineSegment (axis_p1 distances i) (axis_p2 distances angles len i)])"
  by (rule ext) (simp add: axis_segments_def)

lemma axis_segments_stubs:
  "limit \<noteq> 0 \<Longrightarrow>
     axis_segments distances angles len (Some limit) =
       (\<lambda>i. [LineSegment (axis_p1 distances i)
                (vadd (axis_p1 distances i) (vmul (axis_dir angles i) limit)),
              LineSegment (axis_p2 distances angles len i)
                (vadd (axis_p2 distances angles len i) (vmul (axis_dir angles i) (- limit)))])"
  by (rule ext) (simp add: axis_segments_def Let_def)

lemma generate_full_line:
  assumes "distances \<noteq> []" "length angles = length distances" "0 < len" "i < length distances"
  shows "generate distances angles len 0 ! i =
           LineSegment (axis_p1 distances i) (axis_p2 distances angles len i)"
    and "length (generate distances angles len 0) = length distances"
  using assms
  by (simp_all add: generate_closed axis_segments_full)

lemma generate_stubs:
  assumes "distances \<noteq> []" "length angles = length distances" "0 < len" "i < length distances"
    and "limit \<noteq> 0"
  shows "generate distances angles len limit ! (2 * i) =
           LineSegment (axis_p1 distances i)
             (vadd (axis_p1 distances i) (vmul (axis_dir angles i) limit))"
    and "generate distances angles len limit ! (2 * i + 1) =
           LineSegment (axis_p2 distances angles len i)
             (vadd (axis_p2 distances angles len i) (vmul (axis_dir angles i) (- limit)))"
    and "length (generate distances angles len limit) = 2 * length distances"
proof -
  let ?f = "\<lambda>i. LineSegment (axis_p1 distances i)
                (vadd (axis_p1 distances i) (vmul (axis_dir angles i) limit))"
  let ?g = "\<lambda>i. LineSegment (axis_p2 distances angles len i)
                (vadd (axis_p2 distances angles len i) (vmul (axis_dir angles i) (- limit)))"
  have g: "generate distances angles len limit =
             concat (map (\<lambda>j. [?f j, ?g j]) [0..<length distances])"
    using assms by (simp add: generate_closed axis_segments_stubs)
  from nth_concat_pairs [OF assms(4), of ?f ?g]
  show "generate distances angles len limit ! (2 * i) = ?f i"
    and "generate distances angles len limit ! (2 * i + 1) = ?g i"
    unfolding g by blast+
  show "length (generate distances angles len limit) = 2 * length distances"
    unfolding g by (simp add: length_concat_pairs)
qed

lemma vadd_neg: "vadd p (vmul d (- k)) = vsub p (vmul d k)"
  by (cases p; cases d) simp

text \<open>
  Claim C3: for every valid input with \<open>limit > 0\<close>, axis \<open>i\<close> gives exactly the two
  segments at positions \<open>2 i\<close> and \<open>2 i + 1\<close> of the \<open>2 * len(distances)\<close> returned, from
  \<open>p1\<close> to \<open>p1 + dir * limit\<close> and from \<open>p2\<close> to \<open>p2 - dir * limit\<close>; with \<open>limit = 0\<close> it
  gives the one segment from \<open>p1\<close> to \<open>p2\<close>. The limit is not compared with \<open>ln\<close>: in the
  witness the limit is 5000 and the axes are 1000 long, and the stubs overshoot.
\<close>

theorem generate_limit:
  assumes "distances \<noteq> []" "length angles = length distances" "0 < len" "i < length distances"
  shows "(0 < limit \<longrightarrow>
            length (generate distances angles len limit) = 2 * length distances \<and>
            generate distances angles len limit ! (2 * i) =
              LineSegment (axis_p1 distances i)
                (vadd (axis_p1 distances i) (vmul (axis_dir angles i) limit)) \<and>
            generate distances angles len limit ! (2 * i + 1) =
              LineSegment (axis_p2 distances angles len i)
                (vsub (axis_p2 distances angles len i) (vmul (axis_dir angles i) limit))) \<and>
         (limit = 0 \<longrightarrow>
            length (generate distances angles len limit) = length distances \<and>
            generate distances angles len limit ! i =
              LineSegment (axis_p1 distances i) (axis_p2 distances angles len i))"
  using generate_stubs [OF assms, of limit] generate_full_line [OF assms]
  by (auto simp: vadd_neg)

theorem generate_limit_witness:
  "generate [100, 250] [0, 180] 1000 5000 =
     [LineSegment (Vector 100 0 0) (Vector 100 5000 0),
      LineSegment (Vector 100 1000 0) (Vector 100 (- 4000) 0),
      LineSegment (Vector 350 0 0) (Vector 350 (- 5000) 0),
      LineSegment (Vector 350 1000 0) (Vector 350 6000 0)]"
proof -
  let ?g = "generate [100, 250] [0, 180] 1000 5000"
  have v: "[100, 250 :: real] \<noteq> []" "length [0, 180 :: real] = length [100, 250 :: real]"
    "(0::real) < 1000" by simp_all
  have a: "0 < length [100, 250 :: real]" "1 < length [100, 250 :: real]" by simp_all
  have l: "(0::real) < 5000" by simp
  note g0 = generate_limit [OF v a(1), of 5000]
  note g1 = generate_limit [OF v a(2), of 5000]
  have len: "length ?g = 4" using g0 l by simp
  have n0: "?g ! 0 = LineSegment (Vector 100 0 0) (Vector 100 5000 0)"
    using g0 l
    by (simp add: axis_p1_def axis_p2_def axis_dir_def axis_ln_def cumulativeDistance_def radians_def)
  have n1: "?g ! 1 = LineSegment (Vector 100 1000 0) (Vector 100 (- 4000) 0)"
    using g0 l
    by (simp add: axis_p1_def axis_p2_def axis_dir_def axis_ln_def cumulativeDistance_def radians_def)
  have n2: "?g ! 2 = LineSegment (Vector 350 0 0) (Vector 350 (- 5000) 0)"
    using g1 l
    by (simp add: axis_p1_def axis_p2_def axis_dir_def axis_ln_def cumulativeDistance_def radians_def)
  have n3: "?g ! 3 = LineSegment (Vector 350 1000 0) (Vector 350 6000 0)"
    using g1 l
    by (simp add: axis_p1_def axis_p2_def axis_dir_def axis_ln_def cumulativeDistance_def radians_def)
  show ?thesis
    by (rule nth_equalityI) (use len n0 n1 n2 n3 in \<open>auto simp: less_Suc_eq numeral_eq_Suc\<close>)
qed

subsection \<open>The number of segments\<close>

lemma length_axis_segments:
  "length (axis_segments distances angles len Limit_attr i) =
     (if (case Limit_attr of None \<Rightarrow> False | Some Limit_Value \<Rightarrow> Limit_Value \<noteq> 0) then 2 else 1)"
  by (simp add: axis_segments_def Let_def split: option.split)

lemma length_concat_const:
  "(\<And>x. length (f x) = k) \<Longrightarrow> length (concat (map f xs)) = k * length xs"
  by (induction xs) simp_all

lemma length_execute_geoms:
  assumes "distances \<noteq> []" "len \<noteq> 0" "length distances = length angles"
  shows "length (execute_geoms distances angles len Limit_attr) =
     (if (case Limit_attr of None \<Rightarrow> False | Some Limit_Value \<Rightarrow> Limit_Value \<noteq> 0) then 2 else 1)
       * length distances"
  using length_concat_const [of "axis_segments distances angles len Limit_attr" _ "[0..<length distances]",
      OF length_axis_segments]
  by (simp add: execute_geoms_closed [OF assms])

text \<open>
  Claim C4: for every valid input \<open>generate\<close> returns \<open>len(distances)\<close> segments when
  \<open>limit == 0\<close> and \<open>2 * len(distances)\<close> segments when \<open>limit > 0\<close>.
\<close>

theorem generate_count:
  assumes "distances \<noteq> []" "length angles = length distances" "0 < len"
  shows "(limit = 0 \<longrightarrow> length (generate distances angles len limit) = length distances) \<and>
         (0 < limit \<longrightarrow> length (generate distances angles len limit) = 2 * length distances)"
  using assms length_execute_geoms [of distances len angles "Some limit"]
  by (auto simp: generate_def)

theorem generate_count_witness:
  "length (generate [100, 250, 0] [0, 180, 45] 1000 0) = 3 \<and>
   length (generate [100, 250, 0] [0, 180, 45] 1000 300) = 6"
  using generate_count [of "[100, 250, 0]" "[0, 180, 45]" 1000 0]
    generate_count [of "[100, 250, 0]" "[0, 180, 45]" 1000 300]
  by simp

subsection \<open>Nothing to draw\<close>

text \<open>
  Claim C5: when \<open>distances\<close> is empty, or \<open>length <= 0\<close>, or \<open>distances\<close> and \<open>angles\<close>
  have different lengths, \<open>generate\<close> returns the empty sequence. The length is the
  value of an \<open>App::PropertyLength\<close>, which is never negative: that is the first
  hypothesis, and with it the test of the source, \<open>obj.Length.Value\<close> taken as a truth
  value, is the test \<open>length > 0\<close>. Nothing is raised: \<open>generate\<close> has no exception to
  return, since no step of \<open>execute\<close> can raise one.
\<close>

theorem generate_empty:
  assumes "0 \<le> len"
    and "distances = [] \<or> len \<le> 0 \<or> length distances \<noteq> length angles"
  shows "generate distances angles len limit = []"
  using assms by (auto simp: generate_def execute_geoms_def)

theorem generate_empty_witness:
  "generate [] [] 100 0 = [] \<and> generate [1, 2] [0] 100 0 = [] \<and> generate [0] [0] 0 0 = [] \<and>
   generate [] [0] 0 300 = []"
  using generate_empty [of 100 "[]" "[]" 0] generate_empty [of 100 "[1, 2]" "[0]" 0]
    generate_empty [of 0 "[0]" "[0]" 0] generate_empty [of 0 "[]" "[0]" 300]
  by simp

subsection \<open>What \<open>execute\<close> writes\<close>

lemma execute_degenerate:
  "degenerate obj \<Longrightarrow> execute obj = obj"
  by (auto simp: degenerate_def execute_def Let_def execute_geoms_def)

lemma execute_geoms_nonempty:
  assumes "distances \<noteq> []" "len \<noteq> 0" "length distances = length angles"
  shows "execute_geoms distances angles len Limit_attr \<noteq> []"
proof -
  from assms(1) have "0 < length distances" by simp
  with length_execute_geoms [OF assms, of Limit_attr]
  have "0 < length (execute_geoms distances angles len Limit_attr)" by simp
  then show ?thesis by auto
qed

lemma execute_regular:
  assumes "\<not> degenerate obj"
  shows "\<exists>g geoms. execute obj = obj\<lparr>Shape := Compound (g # geoms)\<rparr>"
proof -
  let ?d = "case Distances obj of None \<Rightarrow> [0] | Some d \<Rightarrow> d"
  let ?a = "case Angles obj of None \<Rightarrow> [0] | Some a \<Rightarrow> a"
  let ?g = "execute_geoms ?d ?a (Length obj) (Limit obj)"
  from assms have "?d \<noteq> []" "Length obj \<noteq> 0" "length ?d = length ?a"
    by (simp_all add: degenerate_def Let_def)
  then have "?g \<noteq> []" by (rule execute_geoms_nonempty)
  then obtain g geoms where g: "?g = g # geoms" by (cases ?g) auto
  have "execute obj = obj\<lparr>Shape := Compound ?g\<rparr>"
    using \<open>?g \<noteq> []\<close> by (simp add: execute_def Let_def)
  with g show ?thesis by auto
qed

text \<open>
  Claim C10: the degenerate state is the one where no segment is built, and there
  \<open>execute\<close> assigns nothing: the object comes back as it was, with the shape and the
  placement it had, and not with an empty shape. An object that is not degenerate gets a
  compound of at least one segment as its shape, and nothing else changes.
\<close>

theorem execute_frame:
  "(degenerate obj \<longleftrightarrow>
      execute_geoms (case Distances obj of None \<Rightarrow> [0] | Some d \<Rightarrow> d)
        (case Angles obj of None \<Rightarrow> [0] | Some a \<Rightarrow> a) (Length obj) (Limit obj) = []) \<and>
   (degenerate obj \<longrightarrow>
      execute obj = obj \<and> Shape (execute obj) = Shape obj \<and>
      Placement (execute obj) = Placement obj) \<and>
   (\<not> degenerate obj \<longrightarrow>
      (\<exists>g geoms. execute obj = obj\<lparr>Shape := Compound (g # geoms)\<rparr>))"
proof -
  let ?d = "case Distances obj of None \<Rightarrow> [0] | Some d \<Rightarrow> d"
  let ?a = "case Angles obj of None \<Rightarrow> [0] | Some a \<Rightarrow> a"
  have "execute_geoms ?d ?a (Length obj) (Limit obj) = []" if "degenerate obj"
    using that by (intro execute_geoms_degenerate) (auto simp: degenerate_def Let_def)
  moreover have "execute_geoms ?d ?a (Length obj) (Limit obj) \<noteq> []" if "\<not> degenerate obj"
    using that by (intro execute_geoms_nonempty) (auto simp: degenerate_def Let_def)
  ultimately show ?thesis
    using execute_degenerate [of obj] execute_regular [of obj] by auto
qed

theorem execute_frame_witness:
  "degenerate \<lparr>Distances = Some [], Angles = Some [], Length = 3000, Limit = Some 0,
      Placement = (7::nat), Shape = LineSegment (Vector 0 0 0) (Vector 0 3000 0)\<rparr> \<and>
   Shape (execute \<lparr>Distances = Some [], Angles = Some [], Length = 3000, Limit = Some 0,
      Placement = (7::nat), Shape = LineSegment (Vector 0 0 0) (Vector 0 3000 0)\<rparr>) =
     LineSegment (Vector 0 0 0) (Vector 0 3000 0) \<and>
   \<not> degenerate \<lparr>Distances = Some [0], Angles = Some [0], Length = 3000, Limit = Some 0,
      Placement = (7::nat), Shape = NullShape\<rparr> \<and>
   (\<exists>g geoms. execute \<lparr>Distances = Some [0], Angles = Some [0], Length = 3000,
      Limit = Some 0, Placement = (7::nat), Shape = NullShape\<rparr> =
     \<lparr>Distances = Some [0], Angles = Some [0], Length = 3000, Limit = Some 0,
      Placement = (7::nat), Shape = Compound (g # geoms)\<rparr>)"
  using execute_frame [of "\<lparr>Distances = Some [], Angles = Some [], Length = 3000, Limit = Some 0,
      Placement = (7::nat), Shape = LineSegment (Vector 0 0 0) (Vector 0 3000 0)\<rparr>"]
    execute_frame [of "\<lparr>Distances = Some [0], Angles = Some [0], Length = 3000, Limit = Some 0,
      Placement = (7::nat), Shape = NullShape\<rparr>"]
  by (simp add: degenerate_def)

end
